theory Spec2Isabelle
  imports Complex_Main "HOL-Library.Tree" "HOL-Library.Multiset"
begin

text \<open>
  A model of the stoppers_modelling programs (combination.py, treap.py, metrics.py,
  combination_with_estimation.py). A function that can raise returns \<open>error + 'a\<close>,
  with \<open>Inl\<close> for the exception.

  A Python float is modelled by the real number it denotes, so comparisons, \<open>abs\<close>
  and \<open>min\<close> are those of the reals. The results of \<open>+\<close>, \<open>-\<close>, \<open>*\<close> and \<open>/\<close> are rounded
  by the machine: they are the four operations of a parameter \<open>ar\<close> of the model, and a
  theorem stated for every \<open>ar\<close> assumes nothing about rounding. The instance \<open>exact\<close>
  does not round; it gives the program's results at inputs where every intermediate
  value is a double.
\<close>


section \<open>The program\<close>

text \<open>The Python exceptions that the modelled code can raise.\<close>

datatype error = ZeroDivisionError | KeyError | IndexError | TypeError

definition ebind :: "error + 'a \<Rightarrow> ('a \<Rightarrow> error + 'b) \<Rightarrow> error + 'b" where
  "ebind m f = (case m of Inl e \<Rightarrow> Inl e | Inr x \<Rightarrow> f x)"

text \<open>A \<open>for\<close> loop over a list whose body can raise: the first exception ends the loop.\<close>

fun for_each :: "'a list \<Rightarrow> ('a \<Rightarrow> 's \<Rightarrow> error + 's) \<Rightarrow> 's \<Rightarrow> error + 's" where
  "for_each [] body st = Inr st"
| "for_each (x # xs) body st =
     (case body x st of Inl e \<Rightarrow> Inl e | Inr st' \<Rightarrow> for_each xs body st')"

text \<open>
  The rounded float operations, a parameter of the model. \<open>x / y\<close> is \<open>pdiv\<close>: Python
  raises \<open>ZeroDivisionError\<close> when the divisor is zero and rounds the quotient otherwise.
\<close>

record arith =
  fadd :: "real \<Rightarrow> real \<Rightarrow> real"
  fsub :: "real \<Rightarrow> real \<Rightarrow> real"
  fmul :: "real \<Rightarrow> real \<Rightarrow> real"
  fdiv :: "real \<Rightarrow> real \<Rightarrow> real"

definition exact :: arith where
  "exact = \<lparr>fadd = (+), fsub = (-), fmul = (*), fdiv = (/)\<rparr>"

definition pdiv :: "arith \<Rightarrow> real \<Rightarrow> real \<Rightarrow> error + real" where
  "pdiv ar x y = (if y = 0 then Inl ZeroDivisionError else Inr (fdiv ar x y))"

text \<open>
  A Python \<open>dict\<close> keeps its keys in insertion order and holds each key once: it is an
  association list with distinct keys (\<open>is_dict\<close>). \<open>d[k] = v\<close> overwrites in place or
  appends; \<open>d[k]\<close> raises \<open>KeyError\<close> on an absent key.
\<close>

type_synonym label = string

type_synonym 'v dict = "(label \<times> 'v) list"

definition is_dict :: "'v dict \<Rightarrow> bool" where
  "is_dict d = distinct (map fst d)"

definition keys :: "'v dict \<Rightarrow> label list" where
  "keys d = map fst d"

definition has_key :: "'v dict \<Rightarrow> label \<Rightarrow> bool" where
  "has_key d k = (k \<in> set (map fst d))"

fun dict_set :: "'v dict \<Rightarrow> label \<Rightarrow> 'v \<Rightarrow> 'v dict" where
  "dict_set [] k v = [(k, v)]"
| "dict_set ((k', v') # d) k v = (if k' = k then (k, v) # d else (k', v') # dict_set d k v)"

definition dict_get :: "'v dict \<Rightarrow> label \<Rightarrow> error + 'v" where
  "dict_get d k = (case map_of d k of None \<Rightarrow> Inl KeyError | Some v \<Rightarrow> Inr v)"

text \<open>\<open>Cell\<close> (combination.py): a map from class labels to membership estimations.\<close>

datatype cell = Cell (vars: "real dict")

definition clone :: "cell \<Rightarrow> cell" where
  "clone c = Cell (map (\<lambda>(k, v). (k, v)) (vars c))"

text \<open>
  \<open>Cell.normalize\<close>: the first loop accumulates the sum of the values from \<open>0.0\<close>, the
  second divides the value of every key by that sum.
\<close>

definition normalize :: "arith \<Rightarrow> cell \<Rightarrow> error + cell" where
  "normalize ar c =
     (let s = foldl (\<lambda>s (k, v). fadd ar s v) 0 (vars c) in
      ebind (for_each (keys (vars c))
               (\<lambda>k d. ebind (dict_get d k) (\<lambda>v. ebind (pdiv ar v s) (\<lambda>q. Inr (dict_set d k q))))
               (vars c))
        (\<lambda>d. Inr (Cell d)))"

definition normalized :: "arith \<Rightarrow> cell \<Rightarrow> error + cell" where
  "normalized ar c = normalize ar (clone c)"

text \<open>The sum of the values of a Cell as \<open>normalize\<close> accumulates it.\<close>

definition float_sum :: "arith \<Rightarrow> cell \<Rightarrow> real" where
  "float_sum ar c = foldl (\<lambda>s (k, v). fadd ar s v) 0 (vars c)"

text \<open>
  The Treap (treap.py). Nodes live in the list \<open>nodes\<close> and refer to each other by index,
  \<open>-1\<close> for no child. The balancing weight, drawn by \<open>random.randint\<close> in the code, is an
  argument of \<open>add_element\<close> here.
\<close>

record treap_node =
  element :: real
  subtree_sum :: real
  subtree_cnt :: int
  weight :: int
  left_node :: int
  right_node :: int

record treap =
  nodes :: "treap_node list"
  root :: int

definition TreapNode :: treap_node where
  "TreapNode = \<lparr>element = 0, subtree_sum = 0, subtree_cnt = 0, weight = 0,
                 left_node = -1, right_node = -1\<rparr>"

definition Treap :: treap where
  "Treap = \<lparr>nodes = [], root = -1\<rparr>"

text \<open>
  Python list indexing: an index from \<open>-len\<close> to \<open>-1\<close> counts from the end, any other index
  outside the list raises \<open>IndexError\<close>.
\<close>

definition py_index :: "'a list \<Rightarrow> int \<Rightarrow> error + nat" where
  "py_index xs i =
     (let n = int (length xs) in
      if 0 \<le> i \<and> i < n then Inr (nat i)
      else if - n \<le> i \<and> i < 0 then Inr (nat (n + i))
      else Inl IndexError)"

definition update_subtree :: "arith \<Rightarrow> treap_node list \<Rightarrow> int \<Rightarrow> error + treap_node list" where
  "update_subtree ar ns node =
     ebind (py_index ns node) (\<lambda>i.
     let ns = ns[i := (ns ! i)\<lparr>subtree_sum := element (ns ! i)\<rparr>];
         ns = ns[i := (ns ! i)\<lparr>subtree_cnt := 1\<rparr>] in
     ebind (if left_node (ns ! i) \<noteq> -1
            then ebind (py_index ns (left_node (ns ! i))) (\<lambda>l.
                 let ns = ns[i := (ns ! i)\<lparr>subtree_sum := fadd ar (subtree_sum (ns ! i)) (subtree_sum (ns ! l))\<rparr>];
                     ns = ns[i := (ns ! i)\<lparr>subtree_cnt := subtree_cnt (ns ! i) + subtree_cnt (ns ! l)\<rparr>]
                 in Inr ns)
            else Inr ns) (\<lambda>ns.
     if right_node (ns ! i) \<noteq> -1
     then ebind (py_index ns (right_node (ns ! i))) (\<lambda>r.
          let ns = ns[i := (ns ! i)\<lparr>subtree_sum := fadd ar (subtree_sum (ns ! i)) (subtree_sum (ns ! r))\<rparr>];
              ns = ns[i := (ns ! i)\<lparr>subtree_cnt := subtree_cnt (ns ! i) + subtree_cnt (ns ! r)\<rparr>]
          in Inr ns)
     else Inr ns))"

text \<open>
  The recursive methods follow child indices and need not terminate on an arbitrary
  storage: they return \<open>None\<close> when the code would not return.
\<close>

partial_function (option) split ::
  "arith \<Rightarrow> treap_node list \<Rightarrow> int \<Rightarrow> real \<Rightarrow> (error + int \<times> int \<times> treap_node list) option" where
  "split ar ns node e =
     (if node = -1 then Some (Inr (-1, -1, ns))
      else case py_index ns node of
        Inl err \<Rightarrow> Some (Inl err)
      | Inr i \<Rightarrow>
          if e < element (ns ! i)
          then Option.bind (split ar ns (left_node (ns ! i)) e) (\<lambda>res.
                 Some (ebind res (\<lambda>(l, r, ns).
                   ebind (py_index ns node) (\<lambda>i.
                   ebind (update_subtree ar (ns[i := (ns ! i)\<lparr>left_node := r\<rparr>]) node) (\<lambda>ns.
                   Inr (l, node, ns))))))
          else Option.bind (split ar ns (right_node (ns ! i)) e) (\<lambda>res.
                 Some (ebind res (\<lambda>(l, r, ns).
                   ebind (py_index ns node) (\<lambda>i.
                   ebind (update_subtree ar (ns[i := (ns ! i)\<lparr>right_node := l\<rparr>]) node) (\<lambda>ns.
                   Inr (node, r, ns)))))))"

partial_function (option) get_lower ::
  "arith \<Rightarrow> treap_node list \<Rightarrow> int \<Rightarrow> real \<Rightarrow> (error + int \<times> real) option" where
  "get_lower ar ns node v =
     (if node = -1 then Some (Inr (0, 0))
      else case py_index ns node of
        Inl err \<Rightarrow> Some (Inl err)
      | Inr i \<Rightarrow>
          if element (ns ! i) < v
          then Option.bind (get_lower ar ns (right_node (ns ! i)) v) (\<lambda>res.
                 Some (ebind res (\<lambda>(c, s).
                   ebind (if left_node (ns ! i) \<noteq> -1
                          then ebind (py_index ns (left_node (ns ! i))) (\<lambda>l.
                               Inr (c + subtree_cnt (ns ! l), fadd ar s (subtree_sum (ns ! l))))
                          else Inr (c, s)) (\<lambda>(c, s).
                   Inr (c + 1, fadd ar s (element (ns ! i)))))))
          else get_lower ar ns (left_node (ns ! i)) v)"

partial_function (option) add_element_internal ::
  "arith \<Rightarrow> treap_node list \<Rightarrow> int \<Rightarrow> (error + int \<times> treap_node list) option" where
  "add_element_internal ar ns node =
     (if node = -1
      then Some (ebind (update_subtree ar ns (-1)) (\<lambda>ns. Inr (int (length ns) - 1, ns)))
      else case py_index ns (-1) of
        Inl err \<Rightarrow> Some (Inl err)
      | Inr lst \<Rightarrow>
         (case py_index ns node of
            Inl err \<Rightarrow> Some (Inl err)
          | Inr i \<Rightarrow>
              if weight (ns ! lst) > weight (ns ! i)
              then Option.bind (split ar ns node (element (ns ! lst))) (\<lambda>res.
                     Some (ebind res (\<lambda>(l, r, ns).
                       ebind (py_index ns (-1)) (\<lambda>lst.
                       let ns = ns[lst := (ns ! lst)\<lparr>left_node := l\<rparr>];
                           ns = ns[lst := (ns ! lst)\<lparr>right_node := r\<rparr>] in
                       ebind (update_subtree ar ns (-1)) (\<lambda>ns.
                       Inr (int (length ns) - 1, ns))))))
              else if element (ns ! lst) < element (ns ! i)
              then Option.bind (add_element_internal ar ns (left_node (ns ! i))) (\<lambda>res.
                     Some (ebind res (\<lambda>(r, ns).
                       ebind (py_index ns node) (\<lambda>i.
                       ebind (update_subtree ar (ns[i := (ns ! i)\<lparr>left_node := r\<rparr>]) node) (\<lambda>ns.
                       Inr (node, ns))))))
              else Option.bind (add_element_internal ar ns (right_node (ns ! i))) (\<lambda>res.
                     Some (ebind res (\<lambda>(r, ns).
                       ebind (py_index ns node) (\<lambda>i.
                       ebind (update_subtree ar (ns[i := (ns ! i)\<lparr>right_node := r\<rparr>]) node) (\<lambda>ns.
                       Inr (node, ns))))))))"

definition add_element :: "arith \<Rightarrow> treap \<Rightarrow> real \<Rightarrow> int \<Rightarrow> (error + treap) option" where
  "add_element ar t e w =
     (let ns = nodes t @ [TreapNode\<lparr>element := e, weight := w\<rparr>] in
      Option.bind (add_element_internal ar ns (root t)) (\<lambda>res.
        Some (ebind res (\<lambda>(r, ns). Inr (t\<lparr>nodes := ns, root := r\<rparr>)))))"

text \<open>
  The abstraction of the node storage: \<open>repr ns t p\<close> says that the index \<open>p\<close> is the root
  of the binary tree \<open>t\<close> of node indices, every index of \<open>t\<close> is in the storage and
  occurs once. \<open>elems\<close> is the in-order list of the elements.
\<close>

definition elems :: "treap_node list \<Rightarrow> nat tree \<Rightarrow> real list" where
  "elems ns t = map (\<lambda>i. element (ns ! i)) (inorder t)"

fun repr :: "treap_node list \<Rightarrow> nat tree \<Rightarrow> int \<Rightarrow> bool" where
  "repr ns Leaf p = (p = -1)"
| "repr ns (Node l i r) p =
     (p = int i \<and> i < length ns \<and>
      repr ns l (left_node (ns ! i)) \<and> repr ns r (right_node (ns ! i)) \<and>
      i \<notin> set_tree l \<and> i \<notin> set_tree r \<and> set_tree l \<inter> set_tree r = {})"

text \<open>
  The float sum of a subtree in the order in which \<open>update_subtree\<close> adds: the node's
  element, then the sum of the left subtree, then the sum of the right subtree.
\<close>

fun tsum :: "arith \<Rightarrow> treap_node list \<Rightarrow> nat tree \<Rightarrow> real" where
  "tsum ar ns Leaf = 0"
| "tsum ar ns (Node l i r) =
     (let s = element (ns ! i);
          s = (if l = Leaf then s else fadd ar s (tsum ar ns l))
      in if r = Leaf then s else fadd ar s (tsum ar ns r))"

fun agg_ok :: "arith \<Rightarrow> treap_node list \<Rightarrow> nat tree \<Rightarrow> bool" where
  "agg_ok ar ns Leaf = True"
| "agg_ok ar ns (Node l i r) =
     (agg_ok ar ns l \<and> agg_ok ar ns r \<and>
      subtree_sum (ns ! i) = tsum ar ns (Node l i r) \<and>
      subtree_cnt (ns ! i) = int (size (Node l i r)))"

fun add_elements :: "arith \<Rightarrow> treap \<Rightarrow> (real \<times> int) list \<Rightarrow> (error + treap) option" where
  "add_elements ar t [] = Some (Inr t)"
| "add_elements ar t ((e, w) # xs) =
     (case add_element ar t e w of
        None \<Rightarrow> None
      | Some (Inl err) \<Rightarrow> Some (Inl err)
      | Some (Inr t') \<Rightarrow> add_elements ar t' xs)"

definition treap_inv :: "arith \<Rightarrow> treap \<Rightarrow> nat tree \<Rightarrow> bool" where
  "treap_inv ar tp tr =
     (repr (nodes tp) tr (root tp) \<and> set_tree tr = {..<length (nodes tp)} \<and>
      sorted (elems (nodes tp) tr) \<and> agg_ok ar (nodes tp) tr)"

text \<open>
  The float sum that \<open>get_lower\<close> accumulates over a subtree: the result for the right
  subtree, then the stored sum of the left subtree, then the node's element.
\<close>

fun lsum :: "arith \<Rightarrow> treap_node list \<Rightarrow> nat tree \<Rightarrow> real \<Rightarrow> real" where
  "lsum ar ns Leaf v = 0"
| "lsum ar ns (Node l i r) v =
     (if element (ns ! i) < v
      then let s = lsum ar ns r v;
               s = (if l = Leaf then s else fadd ar s (tsum ar ns l))
           in fadd ar s (element (ns ! i))
      else lsum ar ns l v)"

text \<open>
  \<open>float_sum_of ar M x\<close>: \<open>x\<close> is a float sum of the values of the multiset \<open>M\<close>, each
  taken once, added up in some order and bracketing with the rounded addition of \<open>ar\<close>
  (a zero that the code starts from may be added along the way).
\<close>

inductive float_sum_of :: "arith \<Rightarrow> real multiset \<Rightarrow> real \<Rightarrow> bool" for ar where
  fs_zero: "float_sum_of ar {#} 0"
| fs_val: "float_sum_of ar {#x#} x"
| fs_add: "float_sum_of ar M x \<Longrightarrow> float_sum_of ar N y \<Longrightarrow> float_sum_of ar (M + N) (fadd ar x y)"

text \<open>
  Every node of the tree stores a float sum of the elements of its subtree and their
  exact number.
\<close>

fun stored_ok :: "arith \<Rightarrow> treap_node list \<Rightarrow> nat tree \<Rightarrow> bool" where
  "stored_ok ar ns Leaf = True"
| "stored_ok ar ns (Node l i r) =
     (stored_ok ar ns l \<and> stored_ok ar ns r \<and>
      float_sum_of ar (mset (elems ns (Node l i r))) (subtree_sum (ns ! i)) \<and>
      subtree_cnt (ns ! i) = int (size (Node l i r)))"

text \<open>
  IEEE 754 binary64 rounding to nearest, ties to even, of a real in the normal range
  (no overflow, no subnormal result): the quotient by the unit in the last place of
  the 53-bit significand is rounded to an integer. \<open>binary64\<close> is the arithmetic of the
  program on such values.
\<close>

definition round_even :: "real \<Rightarrow> int" where
  "round_even x =
     (let f = \<lfloor>x\<rfloor> in
      if x - of_int f < 1 / 2 then f
      else if 1 / 2 < x - of_int f then f + 1
      else if even f then f else f + 1)"

definition round64 :: "real \<Rightarrow> real" where
  "round64 x =
     (if x = 0 then 0
      else let u = 2 powr (of_int \<lfloor>log 2 \<bar>x\<bar>\<rfloor> - 52)
           in of_int (round_even (x / u)) * u)"

definition binary64 :: arith where
  "binary64 = \<lparr>fadd = (\<lambda>x y. round64 (x + y)), fsub = (\<lambda>x y. round64 (x - y)),
                fmul = (\<lambda>x y. round64 (x * y)), fdiv = (\<lambda>x y. round64 (x / y))\<rparr>"

section \<open>Facts about the program\<close>

lemma ebind_Inr [simp]: "ebind (Inr x) f = f x"
  by (simp add: ebind_def)

lemma ebind_Inl [simp]: "ebind (Inl e) f = Inl e"
  by (simp add: ebind_def)

lemma clone_id [simp]: "clone c = c"
  by (simp add: clone_def case_prod_unfold)

lemma dict_get_mid:
  "k \<notin> fst ` set pre \<Longrightarrow> dict_get (pre @ (k, v) # rest) k = Inr v"
  by (induction pre) (auto simp: dict_get_def)

lemma dict_set_mid:
  "k \<notin> fst ` set pre \<Longrightarrow> dict_set (pre @ (k, v) # rest) k q = pre @ (k, q) # rest"
  by (induction pre) auto

lemma normalize_loop:
  assumes "s \<noteq> 0" and "distinct (map fst (pre @ d))"
  shows "for_each (keys d)
           (\<lambda>k d. ebind (dict_get d k) (\<lambda>v. ebind (pdiv ar v s) (\<lambda>q. Inr (dict_set d k q))))
           (pre @ d) = Inr (pre @ map (\<lambda>(k, v). (k, fdiv ar v s)) d)"
  using assms(2)
proof (induction d arbitrary: pre)
  case Nil
  then show ?case by (simp add: keys_def)
next
  case (Cons x d)
  obtain k v where x: "x = (k, v)" by (cases x)
  from Cons.prems have nk: "k \<notin> fst ` set pre" by (auto simp: x)
  from Cons.prems have "distinct (map fst ((pre @ [(k, fdiv ar v s)]) @ d))" by (auto simp: x)
  from Cons.IH [OF this] show ?case
    using assms(1) by (simp add: x keys_def dict_get_mid [OF nk] dict_set_mid [OF nk] pdiv_def)
qed

lemma normalize_empty: "vars c = [] \<Longrightarrow> normalize ar c = Inr c"
  by (cases c) (simp add: normalize_def keys_def)

lemma normalize_zero:
  assumes "vars c \<noteq> []" and "float_sum ar c = 0"
  shows "normalize ar c = Inl ZeroDivisionError"
proof -
  obtain k v d where "vars c = (k, v) # d" using assms(1) by (cases "vars c") auto
  then show ?thesis
    using assms(2) by (simp add: normalize_def float_sum_def keys_def dict_get_def pdiv_def)
qed

lemma normalize_nonzero:
  assumes "is_dict (vars c)" and "float_sum ar c \<noteq> 0"
  shows "normalize ar c = Inr (Cell (map (\<lambda>(k, v). (k, fdiv ar v (float_sum ar c))) (vars c)))"
  using normalize_loop [of "float_sum ar c" "[]" "vars c" ar] assms
  by (simp add: normalize_def float_sum_def is_dict_def)

lemma py_index_nat: "i < length ns \<Longrightarrow> py_index ns (int i) = Inr i"
  by (simp add: py_index_def)

lemma py_index_last_len: "n < length ns \<Longrightarrow> n = length ns - 1 \<Longrightarrow> py_index ns (-1) = Inr n"
  by (cases ns) (simp_all add: py_index_def Let_def)

lemma int_length_pred: "ns \<noteq> [] \<Longrightarrow> int (length ns) - 1 = int (length ns - 1)"
  by (cases ns) simp_all

lemma repr_bound: "repr ns t p \<Longrightarrow> j \<in> set_tree t \<Longrightarrow> j < length ns"
  by (induction t arbitrary: p) auto

lemma repr_distinct: "repr ns t p \<Longrightarrow> distinct (inorder t)"
  by (induction t arbitrary: p) auto

lemma repr_frame:
  "length ns' = length ns \<Longrightarrow> (\<And>j. j \<in> set_tree t \<Longrightarrow> ns' ! j = ns ! j) \<Longrightarrow>
   repr ns' t p = repr ns t p"
  by (induction t arbitrary: p) auto

lemma elems_frame:
  "(\<And>j. j \<in> set_tree t \<Longrightarrow> element (ns' ! j) = element (ns ! j)) \<Longrightarrow> elems ns' t = elems ns t"
  by (simp add: elems_def)

lemma elems_Node [simp]: "elems ns (Node l i r) = elems ns l @ element (ns ! i) # elems ns r"
  by (simp add: elems_def)

lemma elems_Leaf [simp]: "elems ns Leaf = []"
  by (simp add: elems_def)

lemma length_elems [simp]: "length (elems ns t) = size t"
  by (simp add: elems_def length_inorder)

lemma tsum_frame:
  "(\<And>j. j \<in> set_tree t \<Longrightarrow> element (ns' ! j) = element (ns ! j)) \<Longrightarrow> tsum ar ns' t = tsum ar ns t"
  by (induction t) (simp_all add: Let_def)

lemma agg_frame:
  "(\<And>j. j \<in> set_tree t \<Longrightarrow> ns' ! j = ns ! j) \<Longrightarrow> agg_ok ar ns' t = agg_ok ar ns t"
proof (induction t)
  case Leaf
  show ?case by simp
next
  case (Node l i r)
  have "tsum ar ns' (Node l i r) = tsum ar ns (Node l i r)"
    using Node.prems by (intro tsum_frame) simp
  moreover have "agg_ok ar ns' l = agg_ok ar ns l" "agg_ok ar ns' r = agg_ok ar ns r"
    using Node by auto
  moreover have "ns' ! i = ns ! i"
    using Node.prems by simp
  ultimately show ?case by (simp del: tsum.simps)
qed

lemma sorted_elems_Node:
  "sorted (elems ns (Node l i r)) \<longleftrightarrow>
     sorted (elems ns l) \<and> sorted (elems ns r) \<and>
     (\<forall>x\<in>set (elems ns l). x \<le> element (ns ! i)) \<and>
     (\<forall>y\<in>set (elems ns r). element (ns ! i) \<le> y)"
  by (auto simp: sorted_append) (meson order_trans)

lemma update_subtree_ok:
  assumes ix: "py_index ns node = Inr i" and i: "i < length ns"
    and l: "repr ns l (left_node (ns ! i))" and r: "repr ns r (right_node (ns ! i))"
    and nl: "i \<notin> set_tree l" and nr: "i \<notin> set_tree r"
    and al: "agg_ok ar ns l" and ar: "agg_ok ar ns r"
  shows "update_subtree ar ns node =
           Inr (ns[i := (ns ! i)\<lparr>subtree_sum := tsum ar ns (Node l i r),
                                 subtree_cnt := 1 + int (size l) + int (size r)\<rparr>])"
proof (cases l)
  case Leaf
  note lL = this
  show ?thesis
  proof (cases r)
    case Leaf
    with lL l r i ix show ?thesis
      by (simp add: update_subtree_def Let_def)
  next
    case (Node rl j rr)
    with lL l r i ix nr ar show ?thesis
      by (simp add: update_subtree_def Let_def py_index_nat)
  qed
next
  case (Node ll k lr)
  note lN = this
  show ?thesis
  proof (cases r)
    case Leaf
    with lN l r i ix nl al show ?thesis
      by (simp add: update_subtree_def Let_def py_index_nat)
  next
    case (Node rl j rr)
    with lN l r i ix nl nr al ar show ?thesis
      by (simp add: update_subtree_def Let_def py_index_nat)
  qed
qed

lemma nth_update_other: "i \<notin> S \<Longrightarrow> j \<in> S \<Longrightarrow> ns[i := x] ! j = ns ! j"
  by (rule nth_list_update_neq) auto

lemma repr_update_other: "i \<notin> set_tree t \<Longrightarrow> repr (ns[i := x]) t p = repr ns t p"
  by (rule repr_frame) (simp_all add: nth_update_other)

lemma agg_update_other: "i \<notin> set_tree t \<Longrightarrow> agg_ok ar (ns[i := x]) t = agg_ok ar ns t"
  by (rule agg_frame) (simp_all add: nth_update_other)

lemma elems_update_other: "i \<notin> set_tree t \<Longrightarrow> elems (ns[i := x]) t = elems ns t"
  by (rule elems_frame) (simp_all add: nth_update_other)

lemma repr_frame_neq:
  assumes "length ns' = length ns" and "\<And>j. j \<noteq> i \<Longrightarrow> ns' ! j = ns ! j" and "i \<notin> set_tree t"
  shows "repr ns' t p = repr ns t p"
proof (rule repr_frame)
  show "length ns' = length ns" by (rule assms(1))
  fix j assume "j \<in> set_tree t"
  then have "j \<noteq> i" using assms(3) by auto
  then show "ns' ! j = ns ! j" by (rule assms(2))
qed

lemma agg_frame_neq:
  assumes "\<And>j. j \<noteq> i \<Longrightarrow> ns' ! j = ns ! j" and "i \<notin> set_tree t"
  shows "agg_ok ar ns' t = agg_ok ar ns t"
proof (rule agg_frame)
  fix j assume "j \<in> set_tree t"
  then have "j \<noteq> i" using assms(2) by auto
  then show "ns' ! j = ns ! j" by (rule assms(1))
qed

lemma link:
  assumes ix: "py_index ns node = Inr i" and i: "i < length ns"
    and l: "repr ns l (left_node (ns ! i))" and r: "repr ns r (right_node (ns ! i))"
    and nl: "i \<notin> set_tree l" and nr: "i \<notin> set_tree r" and d: "set_tree l \<inter> set_tree r = {}"
    and al: "agg_ok ar ns l" and ar: "agg_ok ar ns r"
  shows "\<exists>ns'. update_subtree ar ns node = Inr ns' \<and> length ns' = length ns \<and>
           (\<forall>j. j \<noteq> i \<longrightarrow> ns' ! j = ns ! j) \<and>
           element (ns' ! i) = element (ns ! i) \<and> weight (ns' ! i) = weight (ns ! i) \<and>
           repr ns' (Node l i r) (int i) \<and> agg_ok ar ns' (Node l i r)"
proof -
  define x where "x = (ns ! i)\<lparr>subtree_sum := tsum ar ns (Node l i r),
                                 subtree_cnt := 1 + int (size l) + int (size r)\<rparr>"
  define ns' where "ns' = ns[i := x]"
  have u: "update_subtree ar ns node = Inr ns'"
    unfolding ns'_def x_def by (rule update_subtree_ok [OF ix i l r nl nr al ar])
  have xi: "ns' ! i = x" using i by (simp add: ns'_def)
  have rl: "repr ns' l (left_node (ns ! i))" using l nl by (simp add: ns'_def repr_update_other)
  have rr: "repr ns' r (right_node (ns ! i))" using r nr by (simp add: ns'_def repr_update_other)
  have al': "agg_ok ar ns' l" using al nl by (simp add: ns'_def agg_update_other)
  have ar': "agg_ok ar ns' r" using ar nr by (simp add: ns'_def agg_update_other)
  have "\<And>j. element (ns' ! j) = element (ns ! j)"
  proof -
    fix j show "element (ns' ! j) = element (ns ! j)"
      by (cases "j = i") (use xi in \<open>simp_all add: x_def ns'_def\<close>)
  qed
  then have ts: "tsum ar ns' (Node l i r) = tsum ar ns (Node l i r)"
    by (intro tsum_frame)
  have "repr ns' (Node l i r) (int i)"
    using rl rr nl nr d i xi by (simp add: x_def ns'_def)
  moreover have "agg_ok ar ns' (Node l i r)"
    using al' ar' xi ts by (simp add: x_def del: tsum.simps)
  moreover have "\<forall>j. j \<noteq> i \<longrightarrow> ns' ! j = ns ! j" by (simp add: ns'_def)
  moreover have "length ns' = length ns" by (simp add: ns'_def)
  moreover have "element (ns' ! i) = element (ns ! i)" "weight (ns' ! i) = weight (ns ! i)"
    using xi by (simp_all add: x_def)
  ultimately show ?thesis using u by blast
qed

lemma split_ok:
  assumes "repr ns t node" and "agg_ok ar ns t" and "sorted (elems ns t)"
  shows "\<exists>l r ns' tl tr. split ar ns node e = Some (Inr (l, r, ns')) \<and> length ns' = length ns \<and>
      (\<forall>j. j \<notin> set_tree t \<longrightarrow> ns' ! j = ns ! j) \<and>
      (\<forall>j. element (ns' ! j) = element (ns ! j)) \<and> (\<forall>j. weight (ns' ! j) = weight (ns ! j)) \<and>
      repr ns' tl l \<and> repr ns' tr r \<and> agg_ok ar ns' tl \<and> agg_ok ar ns' tr \<and>
      inorder tl @ inorder tr = inorder t \<and>
      (\<forall>x\<in>set (elems ns tl). x \<le> e) \<and> (\<forall>x\<in>set (elems ns tr). e < x)"
  using assms
proof (induction t arbitrary: ns node)
  case Leaf
  then have "split ar ns node e = Some (Inr (-1, -1, ns))"
    by (simp add: split.simps)
  then have "split ar ns node e = Some (Inr (-1, -1, ns)) \<and> length ns = length ns \<and>
      (\<forall>j. j \<notin> set_tree (Leaf::nat tree) \<longrightarrow> ns ! j = ns ! j) \<and>
      (\<forall>j. element (ns ! j) = element (ns ! j)) \<and> (\<forall>j. weight (ns ! j) = weight (ns ! j)) \<and>
      repr ns Leaf (-1) \<and> repr ns Leaf (-1) \<and> agg_ok ar ns Leaf \<and> agg_ok ar ns Leaf \<and>
      inorder (Leaf::nat tree) @ inorder (Leaf::nat tree) = inorder (Leaf::nat tree) \<and>
      (\<forall>x\<in>set (elems ns Leaf). x \<le> e) \<and> (\<forall>x\<in>set (elems ns Leaf). e < x)"
    by simp
  then show ?case by blast
next
  case (Node lt i rt)
  from Node.prems(1) have p: "node = int i" and i: "i < length ns"
    and rl: "repr ns lt (left_node (ns ! i))" and rr: "repr ns rt (right_node (ns ! i))"
    and nl: "i \<notin> set_tree lt" and nr: "i \<notin> set_tree rt" and d: "set_tree lt \<inter> set_tree rt = {}"
    by simp_all
  from Node.prems(2) have al: "agg_ok ar ns lt" and ar: "agg_ok ar ns rt" by simp_all
  from Node.prems(3) [unfolded sorted_elems_Node] have sl: "sorted (elems ns lt)" and sr: "sorted (elems ns rt)"
    and bl: "\<forall>x\<in>set (elems ns lt). x \<le> element (ns ! i)"
    and br: "\<forall>y\<in>set (elems ns rt). element (ns ! i) \<le> y"
    by blast+
  have ix: "py_index ns node = Inr i" using p i by (simp add: py_index_nat)
  have nm: "node \<noteq> -1" using p by simp
  show ?case
  proof (cases "e < element (ns ! i)")
    case True
    from Node.IH(1) [OF rl al sl] obtain l r ns1 tl tr where
      s1: "split ar ns (left_node (ns ! i)) e = Some (Inr (l, r, ns1))"
      and len1: "length ns1 = length ns"
      and fr1: "\<forall>j. j \<notin> set_tree lt \<longrightarrow> ns1 ! j = ns ! j"
      and el1: "\<forall>j. element (ns1 ! j) = element (ns ! j)"
      and we1: "\<forall>j. weight (ns1 ! j) = weight (ns ! j)"
      and r1: "repr ns1 tl l" "repr ns1 tr r" and a1: "agg_ok ar ns1 tl" "agg_ok ar ns1 tr"
      and io: "inorder tl @ inorder tr = inorder lt"
      and b1: "\<forall>x\<in>set (elems ns tl). x \<le> e" "\<forall>x\<in>set (elems ns tr). e < x"
      by blast
    have st: "set_tree tl \<union> set_tree tr = set_tree lt"
      using io by (metis set_append set_inorder)
    have itl: "i \<notin> set_tree tl" and itr: "i \<notin> set_tree tr" using st nl by auto
    have dtr: "set_tree tr \<inter> set_tree rt = {}" using st d by auto
    define ns2 where "ns2 = ns1[i := (ns1 ! i)\<lparr>left_node := r\<rparr>]"
    have i2: "i < length ns2" and len2: "length ns2 = length ns" using i len1 by (simp_all add: ns2_def)
    have n2i: "ns2 ! i = (ns ! i)\<lparr>left_node := r\<rparr>"
      using i len1 fr1 nl by (simp add: ns2_def)
    have ix1: "py_index ns1 node = Inr i" using p i len1 by (simp add: py_index_nat)
    have ix2: "py_index ns2 node = Inr i" using p i2 by (simp add: py_index_nat)
    have frt: "\<And>j. j \<in> set_tree rt \<Longrightarrow> ns2 ! j = ns ! j"
    proof -
      fix j assume j: "j \<in> set_tree rt"
      then have "j \<noteq> i" "j \<notin> set_tree lt" using nr d by auto
      then show "ns2 ! j = ns ! j" using fr1 by (simp add: ns2_def)
    qed
    have rtr2: "repr ns2 tr (left_node (ns2 ! i))"
      using r1(2) itr by (simp add: n2i) (simp add: ns2_def repr_update_other)
    have rrt2: "repr ns2 rt (right_node (ns2 ! i))"
      using rr frt len2 by (simp add: n2i repr_frame [of ns2 ns rt])
    have atr2: "agg_ok ar ns2 tr" using a1(2) itr by (simp add: ns2_def agg_update_other)
    have art2: "agg_ok ar ns2 rt" using ar frt by (simp add: agg_frame [of rt ns2 ns])
    from link [OF ix2 i2 rtr2 rrt2 itr nr dtr atr2 art2] obtain ns3 where
      u: "update_subtree ar ns2 node = Inr ns3" and len3: "length ns3 = length ns2"
      and fr3: "\<forall>j. j \<noteq> i \<longrightarrow> ns3 ! j = ns2 ! j"
      and e3: "element (ns3 ! i) = element (ns2 ! i)" and w3: "weight (ns3 ! i) = weight (ns2 ! i)"
      and r3: "repr ns3 (Node tr i rt) (int i)" and a3: "agg_ok ar ns3 (Node tr i rt)"
      by blast
    have res: "split ar ns node e = Some (Inr (l, node, ns3))"
      by (subst split.simps) (simp add: nm ix True s1 ix1 u [unfolded ns2_def])
    have f32: "\<And>j. j \<noteq> i \<Longrightarrow> ns3 ! j = ns1 ! j"
      using fr3 by (simp add: ns2_def)
    have rtl3: "repr ns3 tl l"
      using r1(1) repr_frame_neq [of ns3 ns1 i tl l, OF _ f32 itl] len3 len2 len1 by simp
    have atl3: "agg_ok ar ns3 tl"
      using a1(1) agg_frame_neq [of i ns3 ns1 tl, OF f32 itl] by simp
    have fr: "\<forall>j. j \<notin> set_tree (Node lt i rt) \<longrightarrow> ns3 ! j = ns ! j"
      using f32 fr1 by auto
    have el: "\<forall>j. element (ns3 ! j) = element (ns ! j)"
    proof
      fix j show "element (ns3 ! j) = element (ns ! j)"
        by (cases "j = i") (use e3 n2i f32 el1 in auto)
    qed
    have we: "\<forall>j. weight (ns3 ! j) = weight (ns ! j)"
    proof
      fix j show "weight (ns3 ! j) = weight (ns ! j)"
        by (cases "j = i") (use w3 n2i f32 we1 in auto)
    qed
    have io': "inorder tl @ inorder (Node tr i rt) = inorder (Node lt i rt)"
      using io by simp
    have b2: "\<forall>x\<in>set (elems ns (Node tr i rt)). e < x"
      using b1(2) True br by auto
    have "split ar ns node e = Some (Inr (l, node, ns3)) \<and> length ns3 = length ns \<and>
      (\<forall>j. j \<notin> set_tree (Node lt i rt) \<longrightarrow> ns3 ! j = ns ! j) \<and>
      (\<forall>j. element (ns3 ! j) = element (ns ! j)) \<and> (\<forall>j. weight (ns3 ! j) = weight (ns ! j)) \<and>
      repr ns3 tl l \<and> repr ns3 (Node tr i rt) node \<and> agg_ok ar ns3 tl \<and> agg_ok ar ns3 (Node tr i rt) \<and>
      inorder tl @ inorder (Node tr i rt) = inorder (Node lt i rt) \<and>
      (\<forall>x\<in>set (elems ns tl). x \<le> e) \<and> (\<forall>x\<in>set (elems ns (Node tr i rt)). e < x)"
      using res len3 len2 fr el we rtl3 r3 atl3 a3 io' b1(1) b2 p by simp
    then show ?thesis by blast
  next
    case False
    from Node.IH(2) [OF rr ar sr] obtain l r ns1 tl tr where
      s1: "split ar ns (right_node (ns ! i)) e = Some (Inr (l, r, ns1))"
      and len1: "length ns1 = length ns"
      and fr1: "\<forall>j. j \<notin> set_tree rt \<longrightarrow> ns1 ! j = ns ! j"
      and el1: "\<forall>j. element (ns1 ! j) = element (ns ! j)"
      and we1: "\<forall>j. weight (ns1 ! j) = weight (ns ! j)"
      and r1: "repr ns1 tl l" "repr ns1 tr r" and a1: "agg_ok ar ns1 tl" "agg_ok ar ns1 tr"
      and io: "inorder tl @ inorder tr = inorder rt"
      and b1: "\<forall>x\<in>set (elems ns tl). x \<le> e" "\<forall>x\<in>set (elems ns tr). e < x"
      by blast
    have st: "set_tree tl \<union> set_tree tr = set_tree rt"
      using io by (metis set_append set_inorder)
    have itl: "i \<notin> set_tree tl" and itr: "i \<notin> set_tree tr" using st nr by auto
    have dtl: "set_tree lt \<inter> set_tree tl = {}" using st d by auto
    define ns2 where "ns2 = ns1[i := (ns1 ! i)\<lparr>right_node := l\<rparr>]"
    have i2: "i < length ns2" and len2: "length ns2 = length ns" using i len1 by (simp_all add: ns2_def)
    have n2i: "ns2 ! i = (ns ! i)\<lparr>right_node := l\<rparr>"
      using i len1 fr1 nr by (simp add: ns2_def)
    have ix1: "py_index ns1 node = Inr i" using p i len1 by (simp add: py_index_nat)
    have ix2: "py_index ns2 node = Inr i" using p i2 by (simp add: py_index_nat)
    have flt: "\<And>j. j \<in> set_tree lt \<Longrightarrow> ns2 ! j = ns ! j"
    proof -
      fix j assume j: "j \<in> set_tree lt"
      then have "j \<noteq> i" "j \<notin> set_tree rt" using nl d by auto
      then show "ns2 ! j = ns ! j" using fr1 by (simp add: ns2_def)
    qed
    have rtl2: "repr ns2 tl (right_node (ns2 ! i))"
      using r1(1) itl by (simp add: n2i) (simp add: ns2_def repr_update_other)
    have rlt2: "repr ns2 lt (left_node (ns2 ! i))"
      using rl flt len2 by (simp add: n2i repr_frame [of ns2 ns lt])
    have atl2: "agg_ok ar ns2 tl" using a1(1) itl by (simp add: ns2_def agg_update_other)
    have alt2: "agg_ok ar ns2 lt" using al flt by (simp add: agg_frame [of lt ns2 ns])
    from link [OF ix2 i2 rlt2 rtl2 nl itl dtl alt2 atl2] obtain ns3 where
      u: "update_subtree ar ns2 node = Inr ns3" and len3: "length ns3 = length ns2"
      and fr3: "\<forall>j. j \<noteq> i \<longrightarrow> ns3 ! j = ns2 ! j"
      and e3: "element (ns3 ! i) = element (ns2 ! i)" and w3: "weight (ns3 ! i) = weight (ns2 ! i)"
      and r3: "repr ns3 (Node lt i tl) (int i)" and a3: "agg_ok ar ns3 (Node lt i tl)"
      by blast
    have res: "split ar ns node e = Some (Inr (node, r, ns3))"
      by (subst split.simps) (simp add: nm ix False s1 ix1 u [unfolded ns2_def])
    have f32: "\<And>j. j \<noteq> i \<Longrightarrow> ns3 ! j = ns1 ! j"
      using fr3 by (simp add: ns2_def)
    have rtr3: "repr ns3 tr r"
      using r1(2) repr_frame_neq [of ns3 ns1 i tr r, OF _ f32 itr] len3 len2 len1 by simp
    have atr3: "agg_ok ar ns3 tr"
      using a1(2) agg_frame_neq [of i ns3 ns1 tr, OF f32 itr] by simp
    have fr: "\<forall>j. j \<notin> set_tree (Node lt i rt) \<longrightarrow> ns3 ! j = ns ! j"
      using f32 fr1 by auto
    have el: "\<forall>j. element (ns3 ! j) = element (ns ! j)"
    proof
      fix j show "element (ns3 ! j) = element (ns ! j)"
        by (cases "j = i") (use e3 n2i f32 el1 in auto)
    qed
    have we: "\<forall>j. weight (ns3 ! j) = weight (ns ! j)"
    proof
      fix j show "weight (ns3 ! j) = weight (ns ! j)"
        by (cases "j = i") (use w3 n2i f32 we1 in auto)
    qed
    have io': "inorder (Node lt i tl) @ inorder tr = inorder (Node lt i rt)"
      using io by simp
    have b2: "\<forall>x\<in>set (elems ns (Node lt i tl)). x \<le> e"
      using b1(1) False bl by auto
    have "split ar ns node e = Some (Inr (node, r, ns3)) \<and> length ns3 = length ns \<and>
      (\<forall>j. j \<notin> set_tree (Node lt i rt) \<longrightarrow> ns3 ! j = ns ! j) \<and>
      (\<forall>j. element (ns3 ! j) = element (ns ! j)) \<and> (\<forall>j. weight (ns3 ! j) = weight (ns ! j)) \<and>
      repr ns3 (Node lt i tl) node \<and> repr ns3 tr r \<and> agg_ok ar ns3 (Node lt i tl) \<and> agg_ok ar ns3 tr \<and>
      inorder (Node lt i tl) @ inorder tr = inorder (Node lt i rt) \<and>
      (\<forall>x\<in>set (elems ns (Node lt i tl)). x \<le> e) \<and> (\<forall>x\<in>set (elems ns tr). e < x)"
      using res len3 len2 fr el we r3 rtr3 a3 atr3 io' b1(2) b2 p by simp
    then show ?thesis by blast
  qed
qed

lemma elems_same:
  "(\<And>j. element (ns' ! j) = element (ns ! j)) \<Longrightarrow> elems ns' t = elems ns t"
  by (simp add: elems_def)

lemma elems_inorder_append:
  "inorder ta @ inorder tb = inorder t \<Longrightarrow> elems ns ta @ elems ns tb = elems ns t"
  by (simp add: elems_def flip: map_append)

lemma add_element_internal_ok:
  assumes ne: "ns \<noteq> []" and n: "n = length ns - 1"
    and ln: "left_node (ns ! n) = -1" and rn: "right_node (ns ! n) = -1"
    and "repr ns t node" and "n \<notin> set_tree t" and "agg_ok ar ns t" and "sorted (elems ns t)"
  shows "\<exists>r ns' t'. add_element_internal ar ns node = Some (Inr (r, ns')) \<and> length ns' = length ns \<and>
      (\<forall>j. j \<notin> insert n (set_tree t) \<longrightarrow> ns' ! j = ns ! j) \<and>
      (\<forall>j. element (ns' ! j) = element (ns ! j)) \<and> (\<forall>j. weight (ns' ! j) = weight (ns ! j)) \<and>
      repr ns' t' r \<and> agg_ok ar ns' t' \<and> sorted (elems ns' t') \<and>
      set_tree t' = insert n (set_tree t) \<and>
      mset (elems ns' t') = add_mset (element (ns ! n)) (mset (elems ns t))"
  using assms(5-)
proof (induction t arbitrary: node)
  case Leaf
  have nl: "n < length ns" using ne n by simp
  have ix: "py_index ns (-1) = Inr n" using nl n by (simp add: py_index_last_len)
  have node: "node = -1" using Leaf by simp
  from link [where ar = ar and l = Leaf and r = Leaf, OF ix nl] ln rn obtain ns' where
    u: "update_subtree ar ns (-1) = Inr ns'" and len: "length ns' = length ns"
    and fr: "\<forall>j. j \<noteq> n \<longrightarrow> ns' ! j = ns ! j"
    and e: "element (ns' ! n) = element (ns ! n)" and w: "weight (ns' ! n) = weight (ns ! n)"
    and r: "repr ns' (Node Leaf n Leaf) (int n)" and a: "agg_ok ar ns' (Node Leaf n Leaf)"
    by auto
  have res: "add_element_internal ar ns node = Some (Inr (int n, ns'))"
    using ne by (subst add_element_internal.simps) (simp add: node u len n int_length_pred)
  have el: "\<forall>j. element (ns' ! j) = element (ns ! j)"
  proof
    fix j show "element (ns' ! j) = element (ns ! j)"
      by (cases "j = n") (use e fr in auto)
  qed
  have we: "\<forall>j. weight (ns' ! j) = weight (ns ! j)"
  proof
    fix j show "weight (ns' ! j) = weight (ns ! j)"
      by (cases "j = n") (use w fr in auto)
  qed
  have "add_element_internal ar ns node = Some (Inr (int n, ns')) \<and> length ns' = length ns \<and>
      (\<forall>j. j \<notin> insert n (set_tree (Leaf::nat tree)) \<longrightarrow> ns' ! j = ns ! j) \<and>
      (\<forall>j. element (ns' ! j) = element (ns ! j)) \<and> (\<forall>j. weight (ns' ! j) = weight (ns ! j)) \<and>
      repr ns' (Node Leaf n Leaf) (int n) \<and> agg_ok ar ns' (Node Leaf n Leaf) \<and>
      sorted (elems ns' (Node Leaf n Leaf)) \<and>
      set_tree (Node Leaf n Leaf) = insert n (set_tree (Leaf::nat tree)) \<and>
      mset (elems ns' (Node Leaf n Leaf)) = add_mset (element (ns ! n)) (mset (elems ns Leaf))"
    using res len fr el we r a by simp
  then show ?case by blast
next
  case (Node lt i rt)
  have nlen: "n < length ns" using ne n by simp
  have ixn: "py_index ns (-1) = Inr n" using nlen n by (simp add: py_index_last_len)
  from Node.prems(1) have p: "node = int i" and i: "i < length ns"
    and rl: "repr ns lt (left_node (ns ! i))" and rr: "repr ns rt (right_node (ns ! i))"
    and nl: "i \<notin> set_tree lt" and nr: "i \<notin> set_tree rt" and d: "set_tree lt \<inter> set_tree rt = {}"
    by simp_all
  from Node.prems(2) have ni: "n \<noteq> i" and nnl: "n \<notin> set_tree lt" and nnr: "n \<notin> set_tree rt"
    by auto
  from Node.prems(3) have al: "agg_ok ar ns lt" and ar: "agg_ok ar ns rt" by simp_all
  from Node.prems(4) [unfolded sorted_elems_Node] have sl: "sorted (elems ns lt)"
    and sr: "sorted (elems ns rt)"
    and bl: "\<forall>x\<in>set (elems ns lt). x \<le> element (ns ! i)"
    and br: "\<forall>y\<in>set (elems ns rt). element (ns ! i) \<le> y"
    by blast+
  have ix: "py_index ns node = Inr i" using p i by (simp add: py_index_nat)
  have nm: "node \<noteq> -1" using p by simp
  let ?t = "Node lt i rt"
  let ?e = "element (ns ! n)"
  show ?case
  proof (cases "weight (ns ! n) > weight (ns ! i)")
    case True
    from split_ok [OF Node.prems(1) Node.prems(3) Node.prems(4), of ?e] obtain l r ns1 tl tr where
      s1: "split ar ns node ?e = Some (Inr (l, r, ns1))"
      and len1: "length ns1 = length ns"
      and fr1: "\<forall>j. j \<notin> set_tree ?t \<longrightarrow> ns1 ! j = ns ! j"
      and el1: "\<forall>j. element (ns1 ! j) = element (ns ! j)"
      and we1: "\<forall>j. weight (ns1 ! j) = weight (ns ! j)"
      and r1: "repr ns1 tl l" "repr ns1 tr r" and a1: "agg_ok ar ns1 tl" "agg_ok ar ns1 tr"
      and io: "inorder tl @ inorder tr = inorder ?t"
      and b1: "\<forall>x\<in>set (elems ns tl). x \<le> ?e" "\<forall>x\<in>set (elems ns tr). ?e < x"
      by blast
    have st: "set_tree tl \<union> set_tree tr = set_tree ?t"
      using io by (metis set_append set_inorder)
    have "distinct (inorder tl @ inorder tr)"
      using io repr_distinct [OF Node.prems(1)] by simp
    then have dd: "set_tree tl \<inter> set_tree tr = {}" by simp
    have ntl: "n \<notin> set_tree tl" and ntr: "n \<notin> set_tree tr" using st Node.prems(2) by auto
    have n1: "ns1 ! n = ns ! n" using fr1 Node.prems(2) by simp
    define ns2 where "ns2 = ns1[n := (ns1 ! n)\<lparr>left_node := l, right_node := r\<rparr>]"
    have nl2: "n < length ns2" and len2: "length ns2 = length ns" using nlen len1 by (simp_all add: ns2_def)
    have n2n: "ns2 ! n = (ns ! n)\<lparr>left_node := l, right_node := r\<rparr>"
      using nlen len1 n1 by (simp add: ns2_def)
    have f21: "\<And>j. j \<noteq> n \<Longrightarrow> ns2 ! j = ns1 ! j" by (simp add: ns2_def)
    have ix1: "py_index ns1 (-1) = Inr n" using nlen n len1 by (simp add: py_index_last_len)
    have ix2: "py_index ns2 (-1) = Inr n" using nlen n len2 by (simp add: py_index_last_len)
    have r2: "repr ns2 tl (left_node (ns2 ! n))" "repr ns2 tr (right_node (ns2 ! n))"
      using r1 repr_frame_neq [of ns2 ns1 n tl l, OF _ f21 ntl]
        repr_frame_neq [of ns2 ns1 n tr r, OF _ f21 ntr] len1 len2 by (simp_all add: n2n)
    have a2: "agg_ok ar ns2 tl" "agg_ok ar ns2 tr"
      using a1 agg_frame_neq [of n ns2 ns1 tl, OF f21 ntl] agg_frame_neq [of n ns2 ns1 tr, OF f21 ntr]
      by simp_all
    from link [OF ix2 nl2 r2 ntl ntr dd a2] obtain ns3 where
      u: "update_subtree ar ns2 (-1) = Inr ns3" and len3: "length ns3 = length ns2"
      and fr3: "\<forall>j. j \<noteq> n \<longrightarrow> ns3 ! j = ns2 ! j"
      and e3: "element (ns3 ! n) = element (ns2 ! n)" and w3: "weight (ns3 ! n) = weight (ns2 ! n)"
      and r3: "repr ns3 (Node tl n tr) (int n)" and a3: "agg_ok ar ns3 (Node tl n tr)"
      by blast
    have lenn: "int (length ns3) - 1 = int n" using len3 len2 n ne by (simp add: int_length_pred)
    have res: "add_element_internal ar ns node = Some (Inr (int n, ns3))"
      using nlen len1
      by (subst add_element_internal.simps)
         (simp add: nm ixn ix True s1 ix1 u [unfolded ns2_def] lenn)
    have el: "\<forall>j. element (ns3 ! j) = element (ns ! j)"
    proof
      fix j show "element (ns3 ! j) = element (ns ! j)"
        by (cases "j = n") (use e3 n2n fr3 f21 el1 in auto)
    qed
    have we: "\<forall>j. weight (ns3 ! j) = weight (ns ! j)"
    proof
      fix j show "weight (ns3 ! j) = weight (ns ! j)"
        by (cases "j = n") (use w3 n2n fr3 f21 we1 in auto)
    qed
    have fr: "\<forall>j. j \<notin> insert n (set_tree ?t) \<longrightarrow> ns3 ! j = ns ! j"
      using fr3 f21 fr1 by auto
    have ee: "elems ns3 tl = elems ns tl" "elems ns3 tr = elems ns tr"
      using el elems_same [of ns3 ns tl] elems_same [of ns3 ns tr] by simp_all
    have ap: "elems ns tl @ elems ns tr = elems ns ?t"
      using io by (rule elems_inorder_append)
    have "sorted (elems ns tl @ elems ns tr)"
      using Node.prems(4) ap by simp
    then have so: "sorted (elems ns3 (Node tl n tr))"
      using b1 el ee by (auto simp: sorted_append)
    have "mset (elems ns tl) + mset (elems ns tr) = mset (elems ns ?t)"
      by (simp only: ap flip: mset_append)
    then have ms: "mset (elems ns3 (Node tl n tr)) = add_mset ?e (mset (elems ns ?t))"
      using el ee by (simp only: elems_Node mset_append mset.simps) simp
    have stt: "set_tree (Node tl n tr) = insert n (set_tree ?t)"
      using st by auto
    from res len3 len2 fr el we r3 a3 so stt ms show ?thesis
      by (intro exI [of _ "int n"] exI [of _ ns3] exI [of _ "Node tl n tr"]) simp
  next
    case False
    note wf = this
    show ?thesis
    proof (cases "?e < element (ns ! i)")
      case True
      from Node.IH(1) [OF rl nnl al sl] obtain r ns1 t1 where
        s1: "add_element_internal ar ns (left_node (ns ! i)) = Some (Inr (r, ns1))"
        and len1: "length ns1 = length ns"
        and fr1: "\<forall>j. j \<notin> insert n (set_tree lt) \<longrightarrow> ns1 ! j = ns ! j"
        and el1: "\<forall>j. element (ns1 ! j) = element (ns ! j)"
        and we1: "\<forall>j. weight (ns1 ! j) = weight (ns ! j)"
        and r1: "repr ns1 t1 r" and a1: "agg_ok ar ns1 t1" and so1: "sorted (elems ns1 t1)"
        and st1: "set_tree t1 = insert n (set_tree lt)"
        and ms1: "mset (elems ns1 t1) = add_mset ?e (mset (elems ns lt))"
        by blast
      have it1: "i \<notin> set_tree t1" using st1 ni nl by auto
      have dt: "set_tree t1 \<inter> set_tree rt = {}" using st1 d nnr by auto
      define ns2 where "ns2 = ns1[i := (ns1 ! i)\<lparr>left_node := r\<rparr>]"
      have i2: "i < length ns2" and len2: "length ns2 = length ns" using i len1 by (simp_all add: ns2_def)
      have n2i: "ns2 ! i = (ns ! i)\<lparr>left_node := r\<rparr>"
        using i len1 fr1 nl ni by (simp add: ns2_def)
      have ix1: "py_index ns1 node = Inr i" using p i len1 by (simp add: py_index_nat)
      have ix2: "py_index ns2 node = Inr i" using p i2 by (simp add: py_index_nat)
      have f21: "\<And>j. j \<noteq> i \<Longrightarrow> ns2 ! j = ns1 ! j" by (simp add: ns2_def)
      have frt: "\<And>j. j \<in> set_tree rt \<Longrightarrow> ns2 ! j = ns ! j"
      proof -
        fix j assume j: "j \<in> set_tree rt"
        then have "j \<noteq> i" "j \<notin> insert n (set_tree lt)" using nr d nnr by auto
        then show "ns2 ! j = ns ! j" using fr1 by (simp add: ns2_def)
      qed
      have rt2: "repr ns2 t1 (left_node (ns2 ! i))"
        using r1 repr_frame_neq [of ns2 ns1 i t1 r, OF _ f21 it1] len1 len2 by (simp add: n2i)
      have rrt2: "repr ns2 rt (right_node (ns2 ! i))"
        using rr frt len2 by (simp add: n2i repr_frame [of ns2 ns rt])
      have at2: "agg_ok ar ns2 t1" using a1 agg_frame_neq [of i ns2 ns1 t1, OF f21 it1] by simp
      have art2: "agg_ok ar ns2 rt" using ar frt by (simp add: agg_frame [of rt ns2 ns])
      from link [OF ix2 i2 rt2 rrt2 it1 nr dt at2 art2] obtain ns3 where
        u: "update_subtree ar ns2 node = Inr ns3" and len3: "length ns3 = length ns2"
        and fr3: "\<forall>j. j \<noteq> i \<longrightarrow> ns3 ! j = ns2 ! j"
        and e3: "element (ns3 ! i) = element (ns2 ! i)" and w3: "weight (ns3 ! i) = weight (ns2 ! i)"
        and r3: "repr ns3 (Node t1 i rt) (int i)" and a3: "agg_ok ar ns3 (Node t1 i rt)"
        by blast
      have res: "add_element_internal ar ns node = Some (Inr (node, ns3))"
        by (subst add_element_internal.simps)
           (simp add: nm ixn ix wf True s1 ix1 u [unfolded ns2_def])
      have el: "\<forall>j. element (ns3 ! j) = element (ns ! j)"
      proof
        fix j show "element (ns3 ! j) = element (ns ! j)"
          by (cases "j = i") (use e3 n2i fr3 f21 el1 in auto)
      qed
      have we: "\<forall>j. weight (ns3 ! j) = weight (ns ! j)"
      proof
        fix j show "weight (ns3 ! j) = weight (ns ! j)"
          by (cases "j = i") (use w3 n2i fr3 f21 we1 in auto)
      qed
      have fr: "\<forall>j. j \<notin> insert n (set_tree ?t) \<longrightarrow> ns3 ! j = ns ! j"
        using fr3 f21 fr1 by auto
      have ee: "elems ns3 t1 = elems ns1 t1" "elems ns3 rt = elems ns rt"
        using el el1 elems_same [of ns3 ns1 t1] elems_same [of ns3 ns rt] by simp_all
      have "set (elems ns1 t1) = insert ?e (set (elems ns lt))"
        using ms1 by (metis set_mset_add_mset_insert set_mset_mset)
      then have bt: "\<forall>x\<in>set (elems ns1 t1). x \<le> element (ns ! i)"
        using bl True by auto
      have so: "sorted (elems ns3 (Node t1 i rt))"
        unfolding sorted_elems_Node using so1 sr bt br el ee by simp
      have ms: "mset (elems ns3 (Node t1 i rt)) = add_mset ?e (mset (elems ns ?t))"
        using el ee ms1 by simp
      have stt: "set_tree (Node t1 i rt) = insert n (set_tree ?t)"
        using st1 by auto
      from res len3 len2 fr el we r3 a3 so stt ms p show ?thesis
        by (intro exI [of _ "node"] exI [of _ ns3] exI [of _ "Node t1 i rt"]) simp
    next
      case False
      from Node.IH(2) [OF rr nnr ar sr] obtain r ns1 t1 where
        s1: "add_element_internal ar ns (right_node (ns ! i)) = Some (Inr (r, ns1))"
        and len1: "length ns1 = length ns"
        and fr1: "\<forall>j. j \<notin> insert n (set_tree rt) \<longrightarrow> ns1 ! j = ns ! j"
        and el1: "\<forall>j. element (ns1 ! j) = element (ns ! j)"
        and we1: "\<forall>j. weight (ns1 ! j) = weight (ns ! j)"
        and r1: "repr ns1 t1 r" and a1: "agg_ok ar ns1 t1" and so1: "sorted (elems ns1 t1)"
        and st1: "set_tree t1 = insert n (set_tree rt)"
        and ms1: "mset (elems ns1 t1) = add_mset ?e (mset (elems ns rt))"
        by blast
      have it1: "i \<notin> set_tree t1" using st1 ni nr by auto
      have dt: "set_tree lt \<inter> set_tree t1 = {}" using st1 d nnl by auto
      define ns2 where "ns2 = ns1[i := (ns1 ! i)\<lparr>right_node := r\<rparr>]"
      have i2: "i < length ns2" and len2: "length ns2 = length ns" using i len1 by (simp_all add: ns2_def)
      have n2i: "ns2 ! i = (ns ! i)\<lparr>right_node := r\<rparr>"
        using i len1 fr1 nr ni by (simp add: ns2_def)
      have ix1: "py_index ns1 node = Inr i" using p i len1 by (simp add: py_index_nat)
      have ix2: "py_index ns2 node = Inr i" using p i2 by (simp add: py_index_nat)
      have f21: "\<And>j. j \<noteq> i \<Longrightarrow> ns2 ! j = ns1 ! j" by (simp add: ns2_def)
      have flt: "\<And>j. j \<in> set_tree lt \<Longrightarrow> ns2 ! j = ns ! j"
      proof -
        fix j assume j: "j \<in> set_tree lt"
        then have "j \<noteq> i" "j \<notin> insert n (set_tree rt)" using nl d nnl by auto
        then show "ns2 ! j = ns ! j" using fr1 by (simp add: ns2_def)
      qed
      have rt2: "repr ns2 t1 (right_node (ns2 ! i))"
        using r1 repr_frame_neq [of ns2 ns1 i t1 r, OF _ f21 it1] len1 len2 by (simp add: n2i)
      have rlt2: "repr ns2 lt (left_node (ns2 ! i))"
        using rl flt len2 by (simp add: n2i repr_frame [of ns2 ns lt])
      have at2: "agg_ok ar ns2 t1" using a1 agg_frame_neq [of i ns2 ns1 t1, OF f21 it1] by simp
      have alt2: "agg_ok ar ns2 lt" using al flt by (simp add: agg_frame [of lt ns2 ns])
      from link [OF ix2 i2 rlt2 rt2 nl it1 dt alt2 at2] obtain ns3 where
        u: "update_subtree ar ns2 node = Inr ns3" and len3: "length ns3 = length ns2"
        and fr3: "\<forall>j. j \<noteq> i \<longrightarrow> ns3 ! j = ns2 ! j"
        and e3: "element (ns3 ! i) = element (ns2 ! i)" and w3: "weight (ns3 ! i) = weight (ns2 ! i)"
        and r3: "repr ns3 (Node lt i t1) (int i)" and a3: "agg_ok ar ns3 (Node lt i t1)"
        by blast
      have res: "add_element_internal ar ns node = Some (Inr (node, ns3))"
        by (subst add_element_internal.simps)
           (simp add: nm ixn ix wf False s1 ix1 u [unfolded ns2_def])
      have el: "\<forall>j. element (ns3 ! j) = element (ns ! j)"
      proof
        fix j show "element (ns3 ! j) = element (ns ! j)"
          by (cases "j = i") (use e3 n2i fr3 f21 el1 in auto)
      qed
      have we: "\<forall>j. weight (ns3 ! j) = weight (ns ! j)"
      proof
        fix j show "weight (ns3 ! j) = weight (ns ! j)"
          by (cases "j = i") (use w3 n2i fr3 f21 we1 in auto)
      qed
      have fr: "\<forall>j. j \<notin> insert n (set_tree ?t) \<longrightarrow> ns3 ! j = ns ! j"
        using fr3 f21 fr1 by auto
      have ee: "elems ns3 t1 = elems ns1 t1" "elems ns3 lt = elems ns lt"
        using el el1 elems_same [of ns3 ns1 t1] elems_same [of ns3 ns lt] by simp_all
      have "set (elems ns1 t1) = insert ?e (set (elems ns rt))"
        using ms1 by (metis set_mset_add_mset_insert set_mset_mset)
      then have bt: "\<forall>y\<in>set (elems ns1 t1). element (ns ! i) \<le> y"
        using br False by auto
      have so: "sorted (elems ns3 (Node lt i t1))"
        unfolding sorted_elems_Node using so1 sl bt bl el ee by simp
      have ms: "mset (elems ns3 (Node lt i t1)) = add_mset ?e (mset (elems ns ?t))"
        using el ee ms1 by simp
      have stt: "set_tree (Node lt i t1) = insert n (set_tree ?t)"
        using st1 by auto
      from res len3 len2 fr el we r3 a3 so stt ms p show ?thesis
        by (intro exI [of _ "node"] exI [of _ ns3] exI [of _ "Node lt i t1"]) simp
    qed
  qed
qed

lemma repr_append: "repr ns t p \<Longrightarrow> repr (ns @ xs) t p"
  by (induction t arbitrary: p) (auto simp: nth_append)

lemma elems_append: "repr ns t p \<Longrightarrow> elems (ns @ xs) t = elems ns t"
proof -
  assume r: "repr ns t p"
  have "\<And>j. j \<in> set_tree t \<Longrightarrow> (ns @ xs) ! j = ns ! j"
    using repr_bound [OF r] by (simp add: nth_append)
  then show ?thesis by (simp add: elems_def)
qed

lemma agg_append: "repr ns t p \<Longrightarrow> agg_ok ar (ns @ xs) t = agg_ok ar ns t"
proof -
  assume r: "repr ns t p"
  have "\<And>j. j \<in> set_tree t \<Longrightarrow> (ns @ xs) ! j = ns ! j"
    using repr_bound [OF r] by (simp add: nth_append)
  then show ?thesis by (rule agg_frame)
qed

lemma add_element_ok:
  assumes inv: "treap_inv ar tp tr"
  shows "\<exists>tp' tr'. add_element ar tp e w = Some (Inr tp') \<and> treap_inv ar tp' tr' \<and>
           length (nodes tp') = Suc (length (nodes tp)) \<and>
           mset (elems (nodes tp') tr') = add_mset e (mset (elems (nodes tp) tr))"
proof -
  define n where "n = length (nodes tp)"
  define ns where "ns = nodes tp @ [TreapNode\<lparr>element := e, weight := w\<rparr>]"
  from inv have r: "repr (nodes tp) tr (root tp)" and st: "set_tree tr = {..<n}"
    and so: "sorted (elems (nodes tp) tr)" and ag: "agg_ok ar (nodes tp) tr"
    by (simp_all add: treap_inv_def n_def)
  have ne: "ns \<noteq> []" and n: "n = length ns - 1" by (simp_all add: ns_def n_def)
  have nn: "ns ! n = TreapNode\<lparr>element := e, weight := w\<rparr>" by (simp add: ns_def n_def)
  have ln: "left_node (ns ! n) = -1" and rn: "right_node (ns ! n) = -1" and en: "element (ns ! n) = e"
    by (simp_all add: nn TreapNode_def)
  have r': "repr ns tr (root tp)" unfolding ns_def using r by (rule repr_append)
  have nt: "n \<notin> set_tree tr" using st by simp
  have el: "elems ns tr = elems (nodes tp) tr" unfolding ns_def using r by (rule elems_append)
  have ag': "agg_ok ar ns tr" unfolding ns_def using ag agg_append [OF r] by simp
  have so': "sorted (elems ns tr)" using so el by simp
  from add_element_internal_ok [OF ne n ln rn r' nt ag' so'] obtain rt ns' t' where
    a: "add_element_internal ar ns (root tp) = Some (Inr (rt, ns'))" and len: "length ns' = length ns"
    and r2: "repr ns' t' rt" and a2: "agg_ok ar ns' t'" and s2: "sorted (elems ns' t')"
    and st2: "set_tree t' = insert n (set_tree tr)"
    and ms: "mset (elems ns' t') = add_mset (element (ns ! n)) (mset (elems ns tr))"
    by blast
  define tp' where "tp' = tp\<lparr>nodes := ns', root := rt\<rparr>"
  have res: "add_element ar tp e w = Some (Inr tp')"
    using a by (simp add: add_element_def Let_def tp'_def flip: ns_def)
  have l': "length (nodes tp') = Suc n" using len by (simp add: tp'_def ns_def n_def)
  have "set_tree t' = {..<Suc n}" using st2 st by auto
  then have "treap_inv ar tp' t'"
    using r2 a2 s2 l' by (simp add: treap_inv_def tp'_def)
  moreover have "mset (elems (nodes tp') t') = add_mset e (mset (elems (nodes tp) tr))"
    using ms en el by (simp add: tp'_def)
  ultimately show ?thesis using res l' n_def by blast
qed

lemma add_elements_ok:
  assumes "treap_inv ar tp tr"
  shows "\<exists>tp' tr'. add_elements ar tp xs = Some (Inr tp') \<and> treap_inv ar tp' tr' \<and>
           length (nodes tp') = length (nodes tp) + length xs \<and>
           mset (elems (nodes tp') tr') = mset (map fst xs) + mset (elems (nodes tp) tr)"
  using assms
proof (induction xs arbitrary: tp tr)
  case Nil
  then show ?case by auto
next
  case (Cons x xs)
  obtain e w where x: "x = (e, w)" by (cases x)
  from add_element_ok [OF Cons.prems, of e w] obtain tp1 tr1 where
    a: "add_element ar tp e w = Some (Inr tp1)" and i1: "treap_inv ar tp1 tr1"
    and l1: "length (nodes tp1) = Suc (length (nodes tp))"
    and m1: "mset (elems (nodes tp1) tr1) = add_mset e (mset (elems (nodes tp) tr))"
    by blast
  from Cons.IH [OF i1] obtain tp' tr' where
    b: "add_elements ar tp1 xs = Some (Inr tp')" and i2: "treap_inv ar tp' tr'"
    and l2: "length (nodes tp') = length (nodes tp1) + length xs"
    and m2: "mset (elems (nodes tp') tr') = mset (map fst xs) + mset (elems (nodes tp1) tr1)"
    by blast
  have "add_elements ar tp (x # xs) = Some (Inr tp')" using a b by (simp add: x)
  moreover have "length (nodes tp') = length (nodes tp) + length (x # xs)" using l1 l2 by simp
  moreover have "mset (elems (nodes tp') tr') = mset (map fst (x # xs)) + mset (elems (nodes tp) tr)"
    using m1 m2 by (simp add: x)
  ultimately show ?case using i2 by blast
qed

lemma treap_inv_empty: "treap_inv ar Treap Leaf"
  by (simp add: treap_inv_def Treap_def)

lemma filter_all: "(\<And>x. x \<in> set xs \<Longrightarrow> P x) \<Longrightarrow> filter P xs = xs"
  by (induction xs) auto

lemma filter_none: "(\<And>x. x \<in> set xs \<Longrightarrow> \<not> P x) \<Longrightarrow> filter P xs = []"
  by (induction xs) auto

lemma get_lower_ok:
  assumes "repr ns t node" and "agg_ok ar ns t" and "sorted (elems ns t)"
  shows "get_lower ar ns node v =
           Some (Inr (int (length (filter (\<lambda>x. x < v) (elems ns t))), lsum ar ns t v))"
  using assms
proof (induction t arbitrary: node)
  case Leaf
  then show ?case by (subst get_lower.simps) simp
next
  case (Node lt i rt)
  from Node.prems(1) have p: "node = int i" and i: "i < length ns"
    and rl: "repr ns lt (left_node (ns ! i))" and rr: "repr ns rt (right_node (ns ! i))"
    by simp_all
  from Node.prems(2) have al: "agg_ok ar ns lt" and ar: "agg_ok ar ns rt" by simp_all
  from Node.prems(3) [unfolded sorted_elems_Node] have sl: "sorted (elems ns lt)"
    and sr: "sorted (elems ns rt)"
    and bl: "\<forall>x\<in>set (elems ns lt). x \<le> element (ns ! i)"
    and br: "\<forall>y\<in>set (elems ns rt). element (ns ! i) \<le> y"
    by blast+
  have ix: "py_index ns node = Inr i" using p i by (simp add: py_index_nat)
  have nm: "node \<noteq> -1" using p by simp
  show ?case
  proof (cases "element (ns ! i) < v")
    case True
    have fl: "filter (\<lambda>x. x < v) (elems ns lt) = elems ns lt"
      using bl True by (intro filter_all) auto
    note gr = Node.IH(2) [OF rr ar sr]
    show ?thesis
    proof (cases lt)
      case Leaf
      then have "left_node (ns ! i) = -1" using rl by simp
      then show ?thesis
        using Leaf by (subst get_lower.simps) (simp add: nm ix True gr)
    next
      case (Node ll j lr)
      then have lj: "left_node (ns ! i) = int j" and j: "j < length ns" using rl by simp_all
      have sj: "subtree_sum (ns ! j) = tsum ar ns lt"
        and cj: "subtree_cnt (ns ! j) = int (size lt)"
        using al Node by simp_all
      have ne: "lt \<noteq> Leaf" using Node by simp
      have "length (elems ns lt) = size lt" by simp
      then show ?thesis
        by (subst get_lower.simps)
           (simp add: nm ix True gr lj j py_index_nat sj cj fl ne del: length_elems tsum.simps)
    qed
  next
    case False
    have fr: "filter (\<lambda>x. x < v) (elems ns rt) = []"
      using br False by (intro filter_none) auto
    note gl = Node.IH(1) [OF rl al sl]
    show ?thesis
      by (subst get_lower.simps) (simp add: nm ix False gl fr)
  qed
qed

lemma float_sum_of_exact: "float_sum_of exact M x \<Longrightarrow> x = sum_mset M"
  by (induction rule: float_sum_of.induct) (simp_all add: exact_def)

lemma float_sum_of_cong: "float_sum_of ar M x \<Longrightarrow> M = N \<Longrightarrow> float_sum_of ar N x"
  by simp

lemma tsum_float_sum: "t \<noteq> Leaf \<Longrightarrow> float_sum_of ar (mset (elems ns t)) (tsum ar ns t)"
proof (induction t)
  case Leaf
  then show ?case by simp
next
  case (Node l i r)
  let ?e = "element (ns ! i)"
  have v: "float_sum_of ar {#?e#} ?e" by (rule fs_val)
  show ?case
  proof (cases "l = Leaf")
    case True
    note lL = this
    show ?thesis
    proof (cases "r = Leaf")
      case True
      with lL v show ?thesis by simp
    next
      case False
      from fs_add [OF v Node.IH(2) [OF False]] lL False show ?thesis
        by (simp add: Let_def)
    qed
  next
    case False
    note lN = this
    have s1: "float_sum_of ar ({#?e#} + mset (elems ns l)) (fadd ar ?e (tsum ar ns l))"
      by (rule fs_add [OF v Node.IH(1) [OF lN]])
    show ?thesis
    proof (cases "r = Leaf")
      case True
      with lN s1 show ?thesis by (simp add: Let_def)
    next
      case False
      from fs_add [OF s1 Node.IH(2) [OF False]] lN False show ?thesis
        by (simp add: Let_def)
    qed
  qed
qed

lemma agg_ok_stored: "agg_ok ar ns t \<Longrightarrow> stored_ok ar ns t"
proof (induction t)
  case Leaf
  show ?case by simp
next
  case (Node l i r)
  have "float_sum_of ar (mset (elems ns (Node l i r))) (tsum ar ns (Node l i r))"
    by (rule tsum_float_sum) simp
  with Node show ?case by (simp del: tsum.simps)
qed

lemma lsum_float_sum:
  assumes "sorted (elems ns t)"
  shows "float_sum_of ar (mset (filter (\<lambda>x. x < v) (elems ns t))) (lsum ar ns t v)"
  using assms
proof (induction t)
  case Leaf
  show ?case by (simp add: fs_zero)
next
  case (Node l i r)
  let ?e = "element (ns ! i)"
  from Node.prems [unfolded sorted_elems_Node] have sl: "sorted (elems ns l)"
    and sr: "sorted (elems ns r)"
    and bl: "\<forall>x\<in>set (elems ns l). x \<le> ?e"
    and br: "\<forall>y\<in>set (elems ns r). ?e \<le> y"
    by blast+
  show ?case
  proof (cases "?e < v")
    case True
    have fl: "filter (\<lambda>x. x < v) (elems ns l) = elems ns l"
      using bl True by (intro filter_all) auto
    have v: "float_sum_of ar {#?e#} ?e" by (rule fs_val)
    note r = Node.IH(2) [OF sr]
    show ?thesis
    proof (cases "l = Leaf")
      case True
      from fs_add [OF r v] True \<open>?e < v\<close> show ?thesis
        by (simp add: Let_def)
    next
      case False
      from fs_add [OF fs_add [OF r tsum_float_sum [OF False, of ar ns]] v] False \<open>?e < v\<close> fl
      show ?thesis
        by (simp add: Let_def add.commute add.left_commute)
    qed
  next
    case False
    have fr: "filter (\<lambda>x. x < v) (elems ns r) = []"
      using br False by (intro filter_none) auto
    from Node.IH(1) [OF sl] False fr show ?thesis by simp
  qed
qed

lemma filter_lt_mono_length:
  fixes ys :: "real list"
  shows "v \<le> v' \<Longrightarrow> length (filter (\<lambda>x. x < v) ys) \<le> length (filter (\<lambda>x. x < v') ys)"
  by (induction ys) auto

lemma filter_length_mset:
  assumes "mset ys = mset zs"
  shows "length (filter P ys) = length (filter P zs)"
proof -
  have "mset (filter P ys) = mset (filter P zs)"
    using assms by (simp only: mset_filter)
  then show ?thesis by (metis size_mset)
qed

lemma built_get_lower:
  "\<exists>t tr. add_elements ar Treap xs = Some (Inr t) \<and> treap_inv ar t tr \<and>
      length (nodes t) = length xs \<and> mset (elems (nodes t) tr) = mset (map fst xs) \<and>
      (\<forall>v. \<exists>s. get_lower ar (nodes t) (root t) v =
            Some (Inr (int (length (filter (\<lambda>x. x < v) (map fst xs))), s)) \<and>
            float_sum_of ar (mset (filter (\<lambda>x. x < v) (map fst xs))) s)"
proof -
  from add_elements_ok [OF treap_inv_empty, of ar xs] obtain t tr where
    a: "add_elements ar Treap xs = Some (Inr t)" and inv: "treap_inv ar t tr"
    and l: "length (nodes t) = length xs"
    and m: "mset (elems (nodes t) tr) = mset (map fst xs)"
    by (auto simp: Treap_def)
  from inv have r: "repr (nodes t) tr (root t)" and ag: "agg_ok ar (nodes t) tr"
    and so: "sorted (elems (nodes t) tr)"
    by (simp_all add: treap_inv_def)
  have "\<forall>v. \<exists>s. get_lower ar (nodes t) (root t) v =
            Some (Inr (int (length (filter (\<lambda>x. x < v) (map fst xs))), s)) \<and>
            float_sum_of ar (mset (filter (\<lambda>x. x < v) (map fst xs))) s"
  proof
    fix v
    have "mset (filter (\<lambda>x. x < v) (elems (nodes t) tr)) = mset (filter (\<lambda>x. x < v) (map fst xs))"
      using m by (simp only: mset_filter)
    then have "float_sum_of ar (mset (filter (\<lambda>x. x < v) (map fst xs))) (lsum ar (nodes t) tr v)"
      using lsum_float_sum [OF so, of ar v] by simp
    then show "\<exists>s. get_lower ar (nodes t) (root t) v =
            Some (Inr (int (length (filter (\<lambda>x. x < v) (map fst xs))), s)) \<and>
            float_sum_of ar (mset (filter (\<lambda>x. x < v) (map fst xs))) s"
      using get_lower_ok [OF r ag so, of v] filter_length_mset [OF m] by simp
  qed
  with a inv l m show ?thesis by blast
qed

lemma floor_log2: "2 ^ n \<le> x \<Longrightarrow> x < 2 ^ Suc n \<Longrightarrow> \<lfloor>log 2 x\<rfloor> = int n"
proof -
  assume a: "2 ^ n \<le> x" and b: "x < 2 ^ Suc n"
  have x: "0 < x" using a by (smt (verit) zero_less_power)
  have "2 powr (of_int (int n)) \<le> x \<and> x < 2 powr (of_int (int n + 1))"
    using a b by (simp add: powr_realpow powr_add)
  then show ?thesis
    using floor_log_eq_powr_iff [of x 2 "int n"] x by simp
qed

lemma round64_one: "round64 1 = 1"
proof -
  have u: "(2::real) powr (- 52) = 1 / 2 ^ 52"
    using powr_minus_divide [of "2::real" 52] powr_realpow [of "2::real" 52] by simp
  show ?thesis
    by (simp add: round64_def u round_even_def)
qed

lemma round64_tie: "round64 9007199254740993 = 9007199254740992"
proof -
  have "\<lfloor>log 2 (9007199254740993::real)\<rfloor> = int 53"
    by (rule floor_log2) simp_all
  then show ?thesis
    by (simp add: round64_def round_even_def)
qed

lemma binary64_add_one [simp]: "fadd binary64 0 1 = 1"
  by (simp add: binary64_def round64_one)

lemma binary64_add_tie [simp]:
  "fadd binary64 1 9007199254740992 = 9007199254740992"
  "fadd binary64 9007199254740992 1 = 9007199254740992"
  by (simp_all add: binary64_def round64_tie)

lemma run_binary64:
  "add_elements binary64 Treap [(1, 5), (9007199254740992, 3), (1, 1)] =
     Some (Inr \<lparr>nodes =
       [\<lparr>element = 1, subtree_sum = 9007199254740992, subtree_cnt = 3, weight = 5,
           left_node = - 1, right_node = 1\<rparr>,
        \<lparr>element = 9007199254740992, subtree_sum = 9007199254740992, subtree_cnt = 2, weight = 3,
           left_node = 2, right_node = - 1\<rparr>,
        \<lparr>element = 1, subtree_sum = 1, subtree_cnt = 1, weight = 1,
           left_node = - 1, right_node = - 1\<rparr>],
       root = 0\<rparr>)"
  by (simp add: add_element_def add_element_internal.simps update_subtree_def py_index_def
      Let_def Treap_def TreapNode_def)

section \<open>Claims\<close>

text \<open>
  C5 (as stated, refuted): the claim wants \<open>normalize\<close> to signal an error for every Cell
  whose weights sum to zero, the Cell with an empty label map included. On the empty
  label map the code raises nothing: neither loop has an item to visit.
\<close>

theorem C5_empty_cell_counterexample:
  "float_sum exact (Cell []) = 0 \<and> normalize exact (Cell []) = Inr (Cell []) \<and>
   normalized exact (Cell []) = Inr (Cell [])"
  by (simp add: float_sum_def normalized_def normalize_empty)

text \<open>
  C5 (amended): \<open>normalize\<close> and \<open>normalized\<close> return a Cell with an empty label map
  unchanged, without any error. On a Cell with at least one label they raise (Python's
  ZeroDivisionError, the code has no error of its own) when the sum as the code
  accumulates it in floating point is zero. When that sum is not zero they succeed,
  keep the labels in their order and replace every weight by its floating-point
  quotient by that sum. The theorem holds for every rounding of the sum and of the
  quotients; that the new weights sum to 1 is true of exact arithmetic only and is
  not part of the amended claim.
\<close>

theorem C5_normalize_errors:
  "(vars c = [] \<longrightarrow> normalize ar c = Inr c \<and> normalized ar c = Inr c) \<and>
   (vars c \<noteq> [] \<and> float_sum ar c = 0 \<longrightarrow>
      normalize ar c = Inl ZeroDivisionError \<and> normalized ar c = Inl ZeroDivisionError) \<and>
   (is_dict (vars c) \<and> float_sum ar c \<noteq> 0 \<longrightarrow>
      normalize ar c = Inr (Cell (map (\<lambda>(k, v). (k, fdiv ar v (float_sum ar c))) (vars c))) \<and>
      normalized ar c = Inr (Cell (map (\<lambda>(k, v). (k, fdiv ar v (float_sum ar c))) (vars c))))"
  by (simp add: normalized_def normalize_empty normalize_zero normalize_nonzero)

theorem C5_normalize_errors_witness:
  "normalized exact (Cell []) = Inr (Cell []) \<and>
   normalize exact (Cell [(''a'', 0)]) = Inl ZeroDivisionError \<and>
   normalize exact (Cell [(''a'', 1), (''b'', -1)]) = Inl ZeroDivisionError \<and>
   normalize exact (Cell [(''a'', 1), (''b'', 3)]) = Inr (Cell [(''a'', 1 / 4), (''b'', 3 / 4)])"
  using C5_normalize_errors [of "Cell []" exact]
    C5_normalize_errors [of "Cell [(''a'', 0)]" exact]
    C5_normalize_errors [of "Cell [(''a'', 1), (''b'', -1)]" exact]
    C5_normalize_errors [of "Cell [(''a'', 1), (''b'', 3)]" exact]
  by (simp add: float_sum_def exact_def is_dict_def)

text \<open>
  C7 (as stated, refuted): the claim wants every stored \<open>subtree_sum\<close> to be the true sum
  of the subtree. The sums are accumulated in floating point. Inserting 1.0, 2^53 and
  1.0 (with balancing weights 5, 3, 1) leaves 2^53 in the root's \<open>subtree_sum\<close>, because
  2^53 + 1.0 rounds to 2^53 both times; the true sum of the three elements is 2^53 + 2,
  itself a double.
\<close>

theorem C7_rounded_sum_counterexample:
  "add_elements binary64 Treap [(1, 5), (9007199254740992, 3), (1, 1)] =
     Some (Inr \<lparr>nodes =
       [\<lparr>element = 1, subtree_sum = 9007199254740992, subtree_cnt = 3, weight = 5,
           left_node = - 1, right_node = 1\<rparr>,
        \<lparr>element = 9007199254740992, subtree_sum = 9007199254740992, subtree_cnt = 2, weight = 3,
           left_node = 2, right_node = - 1\<rparr>,
        \<lparr>element = 1, subtree_sum = 1, subtree_cnt = 1, weight = 1,
           left_node = - 1, right_node = - 1\<rparr>],
       root = 0\<rparr>) \<and>
   sum_list [1, 9007199254740992, 1] = (9007199254740994 :: real)"
  using run_binary64 by simp

text \<open>
  C7 (amended): after any sequence of \<open>add_element\<close> calls from the empty Treap (the
  balancing weights, random in the code, are arbitrary here) every call returns, and
  the storage holds a binary tree \<open>tr\<close> of node indices with root \<open>root\<close> that uses every
  stored node once, whose in-order traversal lists the inserted elements in sorted
  order, and in which every node's \<open>subtree_cnt\<close> is the number of elements of its
  subtree and its \<open>subtree_sum\<close> is a floating-point sum of exactly those elements, the
  node's own included. This holds for every rounding of the additions.
\<close>

theorem C7_treap_invariant:
  "\<exists>t tr. add_elements ar Treap xs = Some (Inr t) \<and>
     repr (nodes t) tr (root t) \<and> set_tree tr = {..<length (nodes t)} \<and>
     length (nodes t) = length xs \<and>
     mset (elems (nodes t) tr) = mset (map fst xs) \<and>
     sorted (elems (nodes t) tr) \<and> stored_ok ar (nodes t) tr"
proof -
  from add_elements_ok [OF treap_inv_empty, of ar xs] obtain t tr where
    "add_elements ar Treap xs = Some (Inr t)" "treap_inv ar t tr"
    "length (nodes t) = length xs" "mset (elems (nodes t) tr) = mset (map fst xs)"
    by (auto simp: Treap_def)
  then show ?thesis unfolding treap_inv_def using agg_ok_stored by blast
qed

theorem C7_treap_invariant_witness:
  "\<exists>t tr. add_elements exact Treap [(3, 5), (1, 7), (2, 6)] = Some (Inr t) \<and>
     repr (nodes t) tr (root t) \<and> set_tree tr = {..<length (nodes t)} \<and>
     length (nodes t) = 3 \<and>
     mset (elems (nodes t) tr) = mset [3, 1, 2] \<and>
     sorted (elems (nodes t) tr) \<and> stored_ok exact (nodes t) tr"
  using C7_treap_invariant [of exact "[(3, 5), (1, 7), (2, 6)]"]
  by (simp add: numeral_3_eq_3 del: add_elements.simps)

text \<open>
  C8 (as stated, refuted): the claim wants \<open>get_lower\<close> to return exactly the sum of the
  inserted elements below \<open>v\<close>. The sum is accumulated in floating point. In the Treap
  built from 1.0, 2^53, 1.0 (weights 5, 3, 1) the query \<open>v = 2^54\<close>, above every element,
  returns the count 3 and the sum 2^53, and the sum of the three elements is 2^53 + 2.
\<close>

theorem C8_rounded_sum_counterexample:
  "add_elements binary64 Treap [(1, 5), (9007199254740992, 3), (1, 1)] =
     Some (Inr \<lparr>nodes =
       [\<lparr>element = 1, subtree_sum = 9007199254740992, subtree_cnt = 3, weight = 5,
           left_node = - 1, right_node = 1\<rparr>,
        \<lparr>element = 9007199254740992, subtree_sum = 9007199254740992, subtree_cnt = 2, weight = 3,
           left_node = 2, right_node = - 1\<rparr>,
        \<lparr>element = 1, subtree_sum = 1, subtree_cnt = 1, weight = 1,
           left_node = - 1, right_node = - 1\<rparr>],
       root = 0\<rparr>) \<and>
   get_lower binary64
       [\<lparr>element = 1, subtree_sum = 9007199254740992, subtree_cnt = 3, weight = 5,
           left_node = - 1, right_node = 1\<rparr>,
        \<lparr>element = 9007199254740992, subtree_sum = 9007199254740992, subtree_cnt = 2, weight = 3,
           left_node = 2, right_node = - 1\<rparr>,
        \<lparr>element = 1, subtree_sum = 1, subtree_cnt = 1, weight = 1,
           left_node = - 1, right_node = - 1\<rparr>] 0 18014398509481984 =
     Some (Inr (3, 9007199254740992)) \<and>
   sum_list (filter (\<lambda>x. x < 18014398509481984) [1, 9007199254740992, 1]) =
     (9007199254740994 :: real)"
  using run_binary64 by (simp add: get_lower.simps py_index_def Let_def)

text \<open>
  C8 (amended): for the Treap built by any sequence of \<open>add_element\<close> calls and every
  query value \<open>v\<close>, \<open>get_lower\<close> from the root returns the exact number of the inserted
  elements strictly below \<open>v\<close> and, as their sum, a floating-point sum of exactly those
  elements; on the empty Treap it returns \<open>(0, 0)\<close>; for \<open>v \<le> v'\<close> the count at \<open>v\<close> is at
  most the count at \<open>v'\<close>; and when \<open>v\<close> exceeds every inserted element the count is the
  number of all of them and the sum a floating-point sum of all of them. This holds
  for every rounding of the additions.
\<close>

theorem C8_get_lower_exact:
  "\<exists>t. add_elements ar Treap xs = Some (Inr t) \<and>
     (\<exists>s. get_lower ar (nodes t) (root t) v =
             Some (Inr (int (length (filter (\<lambda>x. x < v) (map fst xs))), s)) \<and>
           float_sum_of ar (mset (filter (\<lambda>x. x < v) (map fst xs))) s) \<and>
     get_lower ar (nodes Treap) (root Treap) v = Some (Inr (0, 0)) \<and>
     (\<forall>v'. v \<le> v' \<longrightarrow>
        (\<exists>c s c' s'. get_lower ar (nodes t) (root t) v = Some (Inr (c, s)) \<and>
           get_lower ar (nodes t) (root t) v' = Some (Inr (c', s')) \<and> c \<le> c')) \<and>
     ((\<forall>x\<in>set (map fst xs). x < v) \<longrightarrow>
        (\<exists>s. get_lower ar (nodes t) (root t) v = Some (Inr (int (length xs), s)) \<and>
             float_sum_of ar (mset (map fst xs)) s))"
proof -
  from built_get_lower [of ar xs] obtain t where
    a: "add_elements ar Treap xs = Some (Inr t)"
    and g: "\<And>v. \<exists>s. get_lower ar (nodes t) (root t) v =
            Some (Inr (int (length (filter (\<lambda>x. x < v) (map fst xs))), s)) \<and>
            float_sum_of ar (mset (filter (\<lambda>x. x < v) (map fst xs))) s"
    by blast
  have e: "get_lower ar (nodes Treap) (root Treap) v = Some (Inr (0, 0))"
    by (subst get_lower.simps) (simp add: Treap_def)
  have mono: "\<forall>v'. v \<le> v' \<longrightarrow>
        (\<exists>c s c' s'. get_lower ar (nodes t) (root t) v = Some (Inr (c, s)) \<and>
           get_lower ar (nodes t) (root t) v' = Some (Inr (c', s')) \<and> c \<le> c')"
  proof (intro allI impI)
    fix v' assume le: "v \<le> v'"
    have "int (length (filter (\<lambda>x. x < v) (map fst xs))) \<le> int (length (filter (\<lambda>x. x < v') (map fst xs)))"
      using filter_lt_mono_length [OF le, of "map fst xs"] by simp
    then show "\<exists>c s c' s'. get_lower ar (nodes t) (root t) v = Some (Inr (c, s)) \<and>
           get_lower ar (nodes t) (root t) v' = Some (Inr (c', s')) \<and> c \<le> c'"
      using g [of v] g [of v'] by blast
  qed
  have tot: "(\<forall>x\<in>set (map fst xs). x < v) \<longrightarrow>
        (\<exists>s. get_lower ar (nodes t) (root t) v = Some (Inr (int (length xs), s)) \<and>
             float_sum_of ar (mset (map fst xs)) s)"
  proof
    assume "\<forall>x\<in>set (map fst xs). x < v"
    then have "filter (\<lambda>x. x < v) (map fst xs) = map fst xs"
      by (intro filter_all) auto
    then show "\<exists>s. get_lower ar (nodes t) (root t) v = Some (Inr (int (length xs), s)) \<and>
             float_sum_of ar (mset (map fst xs)) s"
      using g [of v] by simp
  qed
  from a g [of v] e mono tot show ?thesis by blast
qed

theorem C8_get_lower_exact_witness:
  "(\<exists>t. add_elements exact Treap [(3, 5), (1, 7), (2, 6)] = Some (Inr t) \<and>
      get_lower exact (nodes t) (root t) 2 = Some (Inr (1, 1))) \<and>
   (\<exists>t. add_elements exact Treap [(3, 5), (1, 7), (2, 6)] = Some (Inr t) \<and>
      get_lower exact (nodes t) (root t) 4 = Some (Inr (3, 6)))"
proof
  show "\<exists>t. add_elements exact Treap [(3, 5), (1, 7), (2, 6)] = Some (Inr t) \<and>
      get_lower exact (nodes t) (root t) 2 = Some (Inr (1, 1))"
    using C8_get_lower_exact [of exact "[(3, 5), (1, 7), (2, 6)]" 2]
    by (auto dest!: float_sum_of_exact)
  show "\<exists>t. add_elements exact Treap [(3, 5), (1, 7), (2, 6)] = Some (Inr t) \<and>
      get_lower exact (nodes t) (root t) 4 = Some (Inr (3, 6))"
    using C8_get_lower_exact [of exact "[(3, 5), (1, 7), (2, 6)]" 4]
    by (auto dest!: float_sum_of_exact)
qed

end
